theory Spec2Isabelle
  imports Complex_Main "HOL-Library.Word" "HOL-Library.Multiset"
begin

unbundle bit_operations_syntax

section \<open>Common types\<close>

text \<open>
  The headers are modelled for an LP64 target: \<open>std::size_t\<close> (the alias \<open>Index\<close> of both
  classes) is an unsigned 64-bit integer whose arithmetic wraps around, and \<open>int\<close> is a
  signed 32-bit integer.

  Every way a call can end other than by returning is a value of \<open>error\<close>: the
  exceptions that the code and the containers it uses can throw, and the undefined
  behaviours it can run into.
\<close>

type_synonym Index = "64 word"

datatype error =
    RuntimeError string     \<comment> \<open>\<open>throw std::runtime_error(msg)\<close>\<close>
  | OutOfRange              \<comment> \<open>\<open>std::out_of_range\<close>, thrown by \<open>std::vector::at\<close>\<close>
  | LengthError             \<comment> \<open>\<open>std::length_error\<close>: a vector of more than \<open>max_size()\<close> elements\<close>
  | BadAlloc                \<comment> \<open>\<open>std::bad_alloc\<close>: no storage for a vector\<close>
  | ModuloByZero            \<comment> \<open>undefined: \<open>x % 0\<close>\<close>
  | IndexOutOfBounds        \<comment> \<open>undefined: \<open>operator[]\<close> at or beyond \<open>size()\<close>\<close>
  | BadDistributionBounds   \<comment> \<open>undefined: \<open>uniform_int_distribution(a, b)\<close> with \<open>b < a\<close>\<close>
  | BadFloatConversion      \<comment> \<open>undefined: a \<open>double\<close> that \<open>std::size_t\<close> cannot hold\<close>

text \<open>The errors that are reported to the caller, as opposed to undefined behaviour.\<close>

fun reported :: "error \<Rightarrow> bool" where
  "reported (RuntimeError msg) = True"
| "reported OutOfRange = True"
| "reported LengthError = True"
| "reported BadAlloc = True"
| "reported ModuloByZero = False"
| "reported IndexOutOfBounds = False"
| "reported BadDistributionBounds = False"
| "reported BadFloatConversion = False"

text \<open>
  Creating the storage of a \<open>std::vector\<close> for \<open>n\<close> elements can fail in two ways, both
  outside the source: \<open>n\<close> exceeds the vector's \<open>max_size()\<close>, or the allocator has no
  storage to give. Both are parameters. No storage is requested for zero elements.
\<close>

record allocator =
  max_size :: nat
  can_allocate :: "nat \<Rightarrow> bool"

definition vector_storage :: "allocator \<Rightarrow> nat \<Rightarrow> error option" where
  "vector_storage al n =
     (if max_size al < n then Some LengthError
      else if 0 < n \<and> \<not> can_allocate al n then Some BadAlloc
      else None)"

section \<open>BloomFilter\<close>

text \<open>
  \<open>num_hashes_\<close> and \<open>buckets_\<close>, the two data members. The \<open>std::vector<bool>\<close> is a list
  of booleans; \<open>size()\<close> is its length read as an \<open>Index\<close>.
\<close>

record bloom_filter =
  num_hashes :: Index
  buckets :: "bool list"

text \<open>A vector's size always fits \<open>std::size_t\<close>.\<close>

definition valid_filter :: "bloom_filter \<Rightarrow> bool" where
  "valid_filter f = (length (buckets f) < 2 ^ 64)"

text \<open>
  \<open>BloomFilter(num_buckets, num_hashes)\<close>: \<open>buckets_(num_buckets, false)\<close>. \<open>BloomFilter\<close> is
  the object that the constructor builds; \<open>new_BloomFilter\<close> is the constructor call
  together with the two ways in which creating the vector can fail.
\<close>

definition BloomFilter :: "Index \<Rightarrow> Index \<Rightarrow> bloom_filter" where
  "BloomFilter n_buckets n_hashes =
     \<lparr>num_hashes = n_hashes, buckets = replicate (unat n_buckets) False\<rparr>"


definition numBuckets :: "bloom_filter \<Rightarrow> Index" where
  "numBuckets f = of_nat (length (buckets f))"

definition numHashes :: "bloom_filter \<Rightarrow> Index" where
  "numHashes f = num_hashes f"

definition numBucketsPopulated :: "bloom_filter \<Rightarrow> Index" where
  "numBucketsPopulated f = of_nat (length (filter (\<lambda>b. b = True) (buckets f)))"

text \<open>
  \<open>hash\<close>: the hash functor \<open>Hash{}\<close> is the parameter \<open>H\<close>. \<open>shift_by\<close> is
  \<open>sizeof(Index) / 2\<close>, a count of bytes that is used as a count of bits.
\<close>

definition sizeof_Index :: nat where
  "sizeof_Index = 8"

definition shift_by :: nat where
  "shift_by = sizeof_Index div 2"

definition hash :: "('v \<Rightarrow> Index) \<Rightarrow> 'v \<Rightarrow> Index \<times> Index" where
  "hash H v = (let h = H v in (push_bit shift_by h, drop_bit shift_by h))"

text \<open>
  The loop of \<open>record\<close>, from counter \<open>n\<close> on. The remainder is taken only when an
  iteration runs, so an empty bucket vector is harmless when \<open>num_hashes_\<close> is zero.
\<close>

function record_loop :: "Index \<Rightarrow> Index \<Rightarrow> Index \<Rightarrow> Index \<Rightarrow> bool list \<Rightarrow> error + bool list" where
  "record_loop n n_hashes hash_a hash_b bs =
     (if n < n_hashes then
        (if (of_nat (length bs) :: Index) = 0 then Inl ModuloByZero
         else
           let nth_hash = (hash_a + n * hash_b) mod of_nat (length bs) in
           if unat nth_hash < length bs
           then record_loop (n + 1) n_hashes hash_a hash_b (bs[unat nth_hash := True])
           else Inl IndexOutOfBounds)
      else Inr bs)"
  by pat_completeness auto
termination
proof (relation "measure (\<lambda>(n, n_hashes, hash_a, hash_b, bs). unat n_hashes - unat n)")
  show "wf (measure (\<lambda>(n, n_hashes, hash_a, hash_b, bs). unat n_hashes - unat n))"
    by simp
next
  fix n n_hashes hash_a hash_b :: Index and bs :: "bool list" and x :: Index
  assume "n < n_hashes"
  then have lt: "unat n < unat n_hashes"
    by (simp add: word_less_nat_alt)
  moreover have "unat n_hashes < 2 ^ 64"
    using unsigned_less [of n_hashes] by simp
  ultimately have "unat n + 1 < 2 ^ 64"
    by simp
  then have "unat (n + 1) = Suc (unat n)"
    by (simp add: unat_word_ariths)
  with lt show "((n + 1, n_hashes, hash_a, hash_b, bs[unat x := True]),
                 (n, n_hashes, hash_a, hash_b, bs))
                \<in> measure (\<lambda>(n, n_hashes, hash_a, hash_b, bs). unat n_hashes - unat n)"
    by simp
qed

text \<open>\<open>record\<close> (the name is taken in Isabelle, hence \<open>record_value\<close>).\<close>

definition record_value :: "('v \<Rightarrow> Index) \<Rightarrow> bloom_filter \<Rightarrow> 'v \<Rightarrow> error + bloom_filter" where
  "record_value H f v =
     (case hash H v of (hash_a, hash_b) \<Rightarrow>
        (case record_loop 0 (num_hashes f) hash_a hash_b (buckets f) of
           Inl e \<Rightarrow> Inl e
         | Inr bs \<Rightarrow> Inr (f\<lparr>buckets := bs\<rparr>)))"

text \<open>The loop of \<open>contains\<close>, with its early \<open>return false\<close>.\<close>

function contains_loop :: "Index \<Rightarrow> Index \<Rightarrow> Index \<Rightarrow> Index \<Rightarrow> bool list \<Rightarrow> error + bool" where
  "contains_loop n n_hashes hash_a hash_b bs =
     (if n < n_hashes then
        (if (of_nat (length bs) :: Index) = 0 then Inl ModuloByZero
         else
           let nth_hash = (hash_a + n * hash_b) mod of_nat (length bs) in
           if unat nth_hash < length bs
           then (if \<not> bs ! unat nth_hash then Inr False
                 else contains_loop (n + 1) n_hashes hash_a hash_b bs)
           else Inl IndexOutOfBounds)
      else Inr True)"
  by pat_completeness auto
termination
proof (relation "measure (\<lambda>(n, n_hashes, hash_a, hash_b, bs). unat n_hashes - unat n)")
  show "wf (measure (\<lambda>(n, n_hashes, hash_a, hash_b, bs). unat n_hashes - unat n))"
    by simp
next
  fix n n_hashes hash_a hash_b :: Index and bs :: "bool list"
  assume "n < n_hashes"
  then have lt: "unat n < unat n_hashes"
    by (simp add: word_less_nat_alt)
  moreover have "unat n_hashes < 2 ^ 64"
    using unsigned_less [of n_hashes] by simp
  ultimately have "unat n + 1 < 2 ^ 64"
    by simp
  then have "unat (n + 1) = Suc (unat n)"
    by (simp add: unat_word_ariths)
  with lt show "((n + 1, n_hashes, hash_a, hash_b, bs), (n, n_hashes, hash_a, hash_b, bs))
                \<in> measure (\<lambda>(n, n_hashes, hash_a, hash_b, bs). unat n_hashes - unat n)"
    by simp
qed

definition contains :: "('v \<Rightarrow> Index) \<Rightarrow> bloom_filter \<Rightarrow> 'v \<Rightarrow> error + bool" where
  "contains H f v =
     (case hash H v of (hash_a, hash_b) \<Rightarrow>
        contains_loop 0 (num_hashes f) hash_a hash_b (buckets f))"

text \<open>\<open>operator==\<close>: \<open>std::vector\<close> equality compares the sizes, then the elements.\<close>

definition operator_eq :: "bloom_filter \<Rightarrow> bloom_filter \<Rightarrow> bool" where
  "operator_eq f other = (num_hashes f = num_hashes other \<and> buckets f = buckets other)"

text \<open>
  \<open>std::transform\<close> over two input ranges: it reads \<open>length xs\<close> elements of the second
  range and overwrites as many of the destination; it is undefined when either is shorter.
  The result of \<open>filterUnion\<close> and \<open>filterIntersection\<close> is as large as an argument that
  exists already; its storage is taken to be there.
\<close>

definition transform :: "bool list \<Rightarrow> bool list \<Rightarrow> bool list \<Rightarrow> (bool \<Rightarrow> bool \<Rightarrow> bool) \<Rightarrow> error + bool list" where
  "transform xs ys dest binary_op =
     (if length ys < length xs \<or> length dest < length xs then Inl IndexOutOfBounds
      else Inr (map (\<lambda>(l, r). binary_op l r) (zip xs ys) @ drop (length xs) dest))"

definition filterUnion :: "bloom_filter \<Rightarrow> bloom_filter \<Rightarrow> error + bloom_filter" where
  "filterUnion lhs rhs =
     (if numHashes lhs \<noteq> numHashes rhs
      then Inl (RuntimeError ''error! number of hashes dont match for union'')
      else if numBuckets lhs \<noteq> numBuckets rhs
      then Inl (RuntimeError ''error! number of buckets dont match for union'')
      else
        let result = BloomFilter (numBuckets lhs) (numHashes lhs) in
        (case transform (buckets lhs) (buckets rhs) (buckets result) (\<lambda>l r. l \<or> r) of
           Inl e \<Rightarrow> Inl e
         | Inr bs \<Rightarrow> Inr (result\<lparr>buckets := bs\<rparr>)))"

definition filterIntersection :: "bloom_filter \<Rightarrow> bloom_filter \<Rightarrow> error + bloom_filter" where
  "filterIntersection lhs rhs =
     (if numHashes lhs \<noteq> numHashes rhs
      then Inl (RuntimeError ''error! number of hashes dont match for union'')
      else if numBuckets lhs \<noteq> numBuckets rhs
      then Inl (RuntimeError ''error! number of buckets dont match for union'')
      else
        let result = BloomFilter (numBuckets lhs) (numHashes lhs) in
        (case transform (buckets lhs) (buckets rhs) (buckets result) (\<lambda>l r. l \<and> r) of
           Inl e \<Rightarrow> Inl e
         | Inr bs \<Rightarrow> Inr (result\<lparr>buckets := bs\<rparr>)))"

text \<open>A sequence of \<open>record\<close> calls on one filter, in order; the first failure ends it.\<close>

fun record_all :: "('v \<Rightarrow> Index) \<Rightarrow> bloom_filter \<Rightarrow> 'v list \<Rightarrow> error + bloom_filter" where
  "record_all H f [] = Inr f"
| "record_all H f (v # vs) =
     (case record_value H f v of Inl e \<Rightarrow> Inl e | Inr f' \<Rightarrow> record_all H f' vs)"

text \<open>
  The bucket that iteration \<open>n\<close> of either loop touches, and the set of buckets probed
  for a value.
\<close>

definition nth_hash :: "Index \<Rightarrow> Index \<Rightarrow> Index \<Rightarrow> Index \<Rightarrow> nat" where
  "nth_hash hash_a hash_b n_buckets n = unat ((hash_a + n * hash_b) mod n_buckets)"

definition probes :: "('v \<Rightarrow> Index) \<Rightarrow> bloom_filter \<Rightarrow> 'v \<Rightarrow> nat set" where
  "probes H f v =
     {nth_hash (fst (hash H v)) (snd (hash H v)) (numBuckets f) n | n. n < numHashes f}"









text \<open>A sample allocator: vectors of up to \<open>2^32\<close> elements can be created.\<close>

definition sample_allocator :: allocator where
  "sample_allocator = \<lparr>max_size = 2 ^ 61 - 1, can_allocate = (\<lambda>n. n \<le> 2 ^ 32)\<rparr>"

section \<open>ReservoirSampling\<close>

text \<open>The four data members; the generator's state is of an arbitrary type \<open>'g\<close>.\<close>

record ('v, 'g) sampler =
  rand_gen :: "'g"
  num_to_sample :: Index
  num_processed :: Index
  samples :: "'v list"

text \<open>
  The constructor stores its arguments; \<open>num_processed_\<close> and \<open>samples_\<close> take their
  default values; then \<open>samples_.reserve(num_to_sample)\<close> creates the storage of the
  vector, which may fail. Since the storage is reserved, \<open>emplace_back\<close> in \<open>process\<close>
  never has to create any.
\<close>

definition ReservoirSampling :: "allocator \<Rightarrow> Index \<Rightarrow> 'g \<Rightarrow> error + ('v, 'g) sampler" where
  "ReservoirSampling al n g =
     (case vector_storage al (unat n) of
        Some e \<Rightarrow> Inl e
      | None \<Rightarrow> Inr \<lparr>rand_gen = g, num_to_sample = n, num_processed = 0, samples = []\<rparr>)"

definition numToSample :: "('v, 'g) sampler \<Rightarrow> Index" where
  "numToSample s = num_to_sample s"

definition numProcessed :: "('v, 'g) sampler \<Rightarrow> Index" where
  "numProcessed s = num_processed s"

text \<open>
  \<open>std::uniform_int_distribution<>\<close> is \<open>std::uniform_int_distribution<int>\<close>: its bounds
  and its result are of type \<open>int\<close>. Calling \<open>uniform_int_distribution<>(a, b)(g)\<close> is the
  parameter \<open>draw a b g\<close>, which returns the number drawn and the generator's next state.
  The library promises a result in \<open>[a, b]\<close> when \<open>a \<le> b\<close>, and nothing otherwise.
\<close>

type_synonym 'g uniform_int_distribution = "int \<Rightarrow> int \<Rightarrow> 'g \<Rightarrow> int \<times> 'g"

definition in_bounds :: "'g uniform_int_distribution \<Rightarrow> bool" where
  "in_bounds draw = (\<forall>a b g. a \<le> b \<longrightarrow> a \<le> fst (draw a b g) \<and> fst (draw a b g) \<le> b)"

text \<open>The implicit conversions between \<open>std::size_t\<close> and \<open>int\<close>.\<close>

definition size_t_to_int :: "Index \<Rightarrow> int" where
  "size_t_to_int n = sint (ucast n :: 32 word)"

definition int_to_size_t :: "int \<Rightarrow> Index" where
  "int_to_size_t i = of_int i"

text \<open>
  \<open>process\<close> returns \<open>sample_value\<close> and the sampler's next state. \<open>random_index\<close> is an
  \<open>int\<close>: it is converted to \<open>std::size_t\<close> for the comparison with \<open>numToSample()\<close> and for
  \<open>samples_.at\<close>, which throws when its argument is not below \<open>size()\<close>.
\<close>

definition process :: "'g uniform_int_distribution \<Rightarrow> ('v, 'g) sampler \<Rightarrow> 'v \<Rightarrow> error + (bool \<times> ('v, 'g) sampler)" where
  "process draw s v =
     (let upper = size_t_to_int (numProcessed s) in
      if upper < 0 then Inl BadDistributionBounds
      else
        (case draw 0 upper (rand_gen s) of (random_index, g) \<Rightarrow>
           let s1 = s\<lparr>rand_gen := g\<rparr>;
               sample_value = (int_to_size_t random_index < numToSample s1)
           in if sample_value then
                (if numProcessed s1 \<ge> numToSample s1 then
                   (if unat (int_to_size_t random_index) < length (samples s1)
                    then Inr (sample_value,
                           s1\<lparr>samples := (samples s1)[unat (int_to_size_t random_index) := v],
                              num_processed := num_processed s1 + 1\<rparr>)
                    else Inl OutOfRange)
                 else Inr (sample_value,
                        s1\<lparr>samples := samples s1 @ [v], num_processed := num_processed s1 + 1\<rparr>))
              else Inr (sample_value, s1\<lparr>num_processed := num_processed s1 + 1\<rparr>)))"

text \<open>A sequence of \<open>process\<close> calls on one sampler, in order; the first failure ends it.\<close>

fun process_all :: "'g uniform_int_distribution \<Rightarrow> ('v, 'g) sampler \<Rightarrow> 'v list \<Rightarrow> error + ('v, 'g) sampler" where
  "process_all draw s [] = Inr s"
| "process_all draw s (v # vs) =
     (case process draw s v of Inl e \<Rightarrow> Inl e | Inr (accepted, s') \<Rightarrow> process_all draw s' vs)"

text \<open>The size invariant of the reservoir.\<close>

definition reservoir_inv :: "('v, 'g) sampler \<Rightarrow> bool" where
  "reservoir_inv s = (length (samples s) = min (unat (numProcessed s)) (unat (numToSample s)))"

text \<open>
  A sample hash functor for integer values: the conversion to \<open>std::size_t\<close>, which is
  what \<open>std::hash<int>\<close> of libstdc++ computes.
\<close>

definition std_hash_int :: "int \<Rightarrow> Index" where
  "std_hash_int v = of_int v"

text \<open>
  A sample distribution for concrete runs: it always draws its lower bound and leaves the
  generator (a counter) alone.
\<close>

definition draw_lower :: "nat uniform_int_distribution" where
  "draw_lower a b g = (a, g)"

section \<open>Properties of the Bloom filter loops\<close>

declare record_loop.simps [simp del] contains_loop.simps [simp del]

lemma word_interval_step:
  fixes n m nh :: Index
  assumes "n < nh"
  shows "(n \<le> m \<and> m < nh) = (m = n \<or> (n + 1 \<le> m \<and> m < nh))"
  using assms
  by (metis inc_le interval_class.inc_less_eq_imp_less word_le_less_eq)

lemma nth_hash_less:
  assumes "(of_nat L :: Index) \<noteq> 0"
  shows "nth_hash a b (of_nat L) m < L"
proof -
  have "(a + m * b) mod of_nat L < (of_nat L :: Index)"
    using assms by (simp add: word_gt_0 word_mod_less_divisor)
  then have "nth_hash a b (of_nat L) m < unat (of_nat L :: Index)"
    by (simp add: nth_hash_def word_less_nat_alt)
  also have "\<dots> \<le> L"
    by (metis le_unat_uoi linorder_linear)
  finally show ?thesis .
qed

lemma nth_update_True:
  "i < length bs \<Longrightarrow> (bs[k := True]) ! i = (bs ! i \<or> i = k)"
  by (cases "i = k") simp_all

lemma record_loop_Inr:
  assumes "(of_nat (length bs) :: Index) \<noteq> 0"
  shows "\<exists>bs'. record_loop n nh a b bs = Inr bs' \<and> length bs' = length bs \<and>
           (\<forall>i<length bs. bs' ! i =
              (bs ! i \<or> (\<exists>m. n \<le> m \<and> m < nh \<and> i = nth_hash a b (of_nat (length bs)) m)))"
  using assms
proof (induction n nh a b bs rule: record_loop.induct)
  case (1 n nh a b bs)
  let ?N = "of_nat (length bs) :: Index"
  let ?k = "nth_hash a b ?N n"
  have k: "?k < length bs"
    using "1.prems" by (rule nth_hash_less)
  show ?case
  proof (cases "n < nh")
    case False
    then have "record_loop n nh a b bs = Inr bs"
      by (simp add: record_loop.simps [of n])
    moreover from False have "\<not> (\<exists>m. n \<le> m \<and> m < nh)"
      by auto
    ultimately show ?thesis
      by auto
  next
    case True
    have unf: "record_loop n nh a b bs = record_loop (n + 1) nh a b (bs[?k := True])"
      using True "1.prems" k by (simp add: record_loop.simps [of n] nth_hash_def Let_def)
    have "of_nat (length (bs[?k := True])) \<noteq> (0 :: Index)"
      using "1.prems" by simp
    from "1.IH" [OF True "1.prems" refl, unfolded nth_hash_def [symmetric], OF k this]
    obtain bs' where
      r: "record_loop (n + 1) nh a b (bs[?k := True]) = Inr bs'" and
      l: "length bs' = length bs" and
      c: "\<forall>i<length bs. bs' ! i =
            ((bs[?k := True]) ! i \<or> (\<exists>m. n + 1 \<le> m \<and> m < nh \<and> i = nth_hash a b ?N m))"
      by auto
    have "\<forall>i<length bs. bs' ! i = (bs ! i \<or> (\<exists>m. n \<le> m \<and> m < nh \<and> i = nth_hash a b ?N m))"
    proof (intro allI impI)
      fix i assume i: "i < length bs"
      have "bs' ! i = ((bs[?k := True]) ! i \<or> (\<exists>m. n + 1 \<le> m \<and> m < nh \<and> i = nth_hash a b ?N m))"
        using c i by simp
      also have "\<dots> = (bs ! i \<or> i = ?k \<or> (\<exists>m. n + 1 \<le> m \<and> m < nh \<and> i = nth_hash a b ?N m))"
        using i by (auto simp: nth_update_True)
      also have "\<dots> = (bs ! i \<or> (\<exists>m. (m = n \<or> (n + 1 \<le> m \<and> m < nh)) \<and> i = nth_hash a b ?N m))"
        by auto
      also have "\<dots> = (bs ! i \<or> (\<exists>m. n \<le> m \<and> m < nh \<and> i = nth_hash a b ?N m))"
        using word_interval_step [OF True] by blast
      finally show "bs' ! i = (bs ! i \<or> (\<exists>m. n \<le> m \<and> m < nh \<and> i = nth_hash a b ?N m))" .
    qed
    with unf r l show ?thesis
      by simp
  qed
qed

lemma record_loop_empty:
  assumes "(of_nat (length bs) :: Index) = 0"
  shows "record_loop n nh a b bs = (if n < nh then Inl ModuloByZero else Inr bs)"
  using assms by (simp add: record_loop.simps [of n])

lemma contains_loop_empty:
  assumes "(of_nat (length bs) :: Index) = 0"
  shows "contains_loop n nh a b bs = (if n < nh then Inl ModuloByZero else Inr True)"
  using assms by (simp add: contains_loop.simps [of n])

lemma contains_loop_Inr:
  assumes "(of_nat (length bs) :: Index) \<noteq> 0"
  shows "contains_loop n nh a b bs =
           Inr (\<forall>m. n \<le> m \<and> m < nh \<longrightarrow> bs ! nth_hash a b (of_nat (length bs)) m)"
  using assms
proof (induction n nh a b bs rule: contains_loop.induct)
  case (1 n nh a b bs)
  let ?N = "of_nat (length bs) :: Index"
  let ?k = "nth_hash a b ?N n"
  have k: "?k < length bs"
    using "1.prems" by (rule nth_hash_less)
  show ?case
  proof (cases "n < nh")
    case False
    then have "contains_loop n nh a b bs = Inr True"
      by (simp add: contains_loop.simps [of n])
    moreover from False have "\<not> (\<exists>m. n \<le> m \<and> m < nh)"
      by auto
    ultimately show ?thesis
      by auto
  next
    case True
    show ?thesis
    proof (cases "bs ! ?k")
      case False
      then have "contains_loop n nh a b bs = Inr False"
        using True "1.prems" k by (simp add: contains_loop.simps [of n] nth_hash_def Let_def)
      moreover have "\<not> (\<forall>m. n \<le> m \<and> m < nh \<longrightarrow> bs ! nth_hash a b ?N m)"
        using False True by auto
      ultimately show ?thesis
        by simp
    next
      case set: True
      then have unf: "contains_loop n nh a b bs = contains_loop (n + 1) nh a b bs"
        using True "1.prems" k by (simp add: contains_loop.simps [of n] nth_hash_def Let_def)
      have "\<not> \<not> bs ! unat ((a + n * b) mod ?N)"
        using set by (simp add: nth_hash_def)
      from "1.IH" [OF True "1.prems" refl, unfolded nth_hash_def [symmetric], OF k _ "1.prems"] set
      have "contains_loop (n + 1) nh a b bs =
              Inr (\<forall>m. n + 1 \<le> m \<and> m < nh \<longrightarrow> bs ! nth_hash a b ?N m)"
        by simp
      moreover have "(\<forall>m. n + 1 \<le> m \<and> m < nh \<longrightarrow> bs ! nth_hash a b ?N m) =
                     (\<forall>m. n \<le> m \<and> m < nh \<longrightarrow> bs ! nth_hash a b ?N m)"
        using word_interval_step [OF True] set by metis
      ultimately show ?thesis
        using unf by simp
    qed
  qed
qed

lemma probes_less:
  assumes "numBuckets f \<noteq> 0" and "i \<in> probes H f v"
  shows "i < length (buckets f)"
  using assms nth_hash_less [of "length (buckets f)"]
  by (auto simp: probes_def numBuckets_def)

lemma probes_cong:
  assumes "num_hashes f' = num_hashes f" and "length (buckets f') = length (buckets f)"
  shows "probes H f' v = probes H f v"
  using assms by (simp add: probes_def numBuckets_def numHashes_def)

lemma record_value_Inr:
  assumes "numBuckets f \<noteq> 0"
  shows "\<exists>f'. record_value H f v = Inr f' \<and> num_hashes f' = num_hashes f \<and>
           length (buckets f') = length (buckets f) \<and>
           (\<forall>i<length (buckets f). buckets f' ! i = (buckets f ! i \<or> i \<in> probes H f v))"
proof -
  obtain a b where ab: "hash H v = (a, b)"
    by (cases "hash H v")
  from assms have nz: "(of_nat (length (buckets f)) :: Index) \<noteq> 0"
    by (simp add: numBuckets_def)
  from record_loop_Inr [OF nz, of 0 "num_hashes f" a b]
  obtain bs' where
    r: "record_loop 0 (num_hashes f) a b (buckets f) = Inr bs'" and
    l: "length bs' = length (buckets f)" and
    c: "\<forall>i<length (buckets f). bs' ! i =
          (buckets f ! i \<or> (\<exists>m. 0 \<le> m \<and> m < num_hashes f \<and>
                                 i = nth_hash a b (of_nat (length (buckets f))) m))"
    by blast
  have p: "probes H f v = {nth_hash a b (of_nat (length (buckets f))) m | m. m < num_hashes f}"
    by (simp add: probes_def ab numBuckets_def numHashes_def)
  have "record_value H f v = Inr (f\<lparr>buckets := bs'\<rparr>)"
    by (simp add: record_value_def ab r)
  moreover have "\<forall>i<length (buckets f). bs' ! i = (buckets f ! i \<or> i \<in> probes H f v)"
    using c unfolding p by auto
  ultimately show ?thesis
    using l by simp
qed

lemma record_value_empty:
  assumes "numBuckets f = 0"
  shows "record_value H f v = (if numHashes f = 0 then Inr f else Inl ModuloByZero)"
proof -
  obtain a b where ab: "hash H v = (a, b)"
    by (cases "hash H v")
  from assms have z: "(of_nat (length (buckets f)) :: Index) = 0"
    by (simp add: numBuckets_def)
  show ?thesis
    by (simp add: record_value_def ab record_loop_empty [OF z] numHashes_def word_gt_0)
qed

lemma contains_Inr:
  assumes "numBuckets f \<noteq> 0"
  shows "contains H f v = Inr (\<forall>i\<in>probes H f v. buckets f ! i)"
proof -
  obtain a b where ab: "hash H v = (a, b)"
    by (cases "hash H v")
  from assms have nz: "(of_nat (length (buckets f)) :: Index) \<noteq> 0"
    by (simp add: numBuckets_def)
  have p: "probes H f v = {nth_hash a b (of_nat (length (buckets f))) m | m. m < num_hashes f}"
    by (simp add: probes_def ab numBuckets_def numHashes_def)
  have "(\<forall>m. 0 \<le> m \<and> m < num_hashes f \<longrightarrow> buckets f ! nth_hash a b (of_nat (length (buckets f))) m)
        = (\<forall>i\<in>probes H f v. buckets f ! i)"
    unfolding p by auto
  then show ?thesis
    by (simp add: contains_def ab contains_loop_Inr [OF nz])
qed

lemma contains_empty:
  assumes "numBuckets f = 0"
  shows "contains H f v = (if numHashes f = 0 then Inr True else Inl ModuloByZero)"
proof -
  obtain a b where ab: "hash H v = (a, b)"
    by (cases "hash H v")
  from assms have z: "(of_nat (length (buckets f)) :: Index) = 0"
    by (simp add: numBuckets_def)
  show ?thesis
    by (simp add: contains_def ab contains_loop_empty [OF z] numHashes_def word_gt_0)
qed

lemma record_all_Inr:
  assumes "numBuckets f \<noteq> 0"
  shows "\<exists>f''. record_all H f vs = Inr f'' \<and> num_hashes f'' = num_hashes f \<and>
           length (buckets f'') = length (buckets f) \<and>
           (\<forall>i<length (buckets f).
              buckets f'' ! i = (buckets f ! i \<or> (\<exists>v\<in>set vs. i \<in> probes H f v)))"
  using assms
proof (induction vs arbitrary: f)
  case Nil
  then show ?case by simp
next
  case (Cons v vs)
  from record_value_Inr [OF Cons.prems, of H v]
  obtain f' where
    r: "record_value H f v = Inr f'" and
    h: "num_hashes f' = num_hashes f" and
    l: "length (buckets f') = length (buckets f)" and
    c: "\<forall>i<length (buckets f). buckets f' ! i = (buckets f ! i \<or> i \<in> probes H f v)"
    by blast
  have nz: "numBuckets f' \<noteq> 0"
    using Cons.prems l by (simp add: numBuckets_def)
  from Cons.IH [OF nz]
  obtain f'' where
    r': "record_all H f' vs = Inr f''" and
    h': "num_hashes f'' = num_hashes f'" and
    l': "length (buckets f'') = length (buckets f')" and
    c': "\<forall>i<length (buckets f').
           buckets f'' ! i = (buckets f' ! i \<or> (\<exists>w\<in>set vs. i \<in> probes H f' w))"
    by blast
  have pc: "\<And>w. probes H f' w = probes H f w"
    using h l by (rule probes_cong)
  have "\<forall>i<length (buckets f).
          buckets f'' ! i = (buckets f ! i \<or> (\<exists>w\<in>set (v # vs). i \<in> probes H f w))"
    using c c' l by (auto simp: pc)
  with r r' h h' l l' show ?case
    by simp
qed

lemma record_all_empty:
  assumes "numBuckets f = 0"
  shows "record_all H f vs = (if vs = [] \<or> numHashes f = 0 then Inr f else Inl ModuloByZero)"
  using assms
  by (induction vs) (simp_all add: record_value_empty)

subsection \<open>No false negatives\<close>

text \<open>
  C1. For a filter with at least one bucket, \<open>record(v)\<close> returns, \<open>contains(v)\<close> is true
  right after it and after any further sequence of \<open>record\<close> calls; and any sequence of
  \<open>record\<close> calls returns, keeps the number of buckets and leaves every bucket that was
  true true.
\<close>

theorem no_false_negatives:
  assumes "0 < numBuckets f"
  shows "(\<exists>f'. record_value H f v = Inr f' \<and> contains H f' v = Inr True \<and>
            (\<forall>vs. \<exists>f''. record_all H f' vs = Inr f'' \<and> contains H f'' v = Inr True)) \<and>
         (\<forall>vs. \<exists>f''. record_all H f vs = Inr f'' \<and>
            length (buckets f'') = length (buckets f) \<and>
            (\<forall>i<length (buckets f). buckets f ! i \<longrightarrow> buckets f'' ! i))"
proof -
  have nz: "numBuckets f \<noteq> 0"
    using assms by simp
  from record_value_Inr [OF nz, of H v]
  obtain f' where
    r: "record_value H f v = Inr f'" and
    h: "num_hashes f' = num_hashes f" and
    l: "length (buckets f') = length (buckets f)" and
    c: "\<forall>i<length (buckets f). buckets f' ! i = (buckets f ! i \<or> i \<in> probes H f v)"
    by blast
  have nz': "numBuckets f' \<noteq> 0"
    using nz l by (simp add: numBuckets_def)
  have pc: "probes H f' v = probes H f v"
    using h l by (rule probes_cong)
  have set': "\<forall>i\<in>probes H f' v. buckets f' ! i"
    using c probes_less [OF nz, of _ H v] by (auto simp: pc)
  then have now: "contains H f' v = Inr True"
    by (simp add: contains_Inr [OF nz'])
  have later: "\<exists>f''. record_all H f' vs = Inr f'' \<and> contains H f'' v = Inr True" for vs
  proof -
    from record_all_Inr [OF nz', of H vs]
    obtain f'' where
      r': "record_all H f' vs = Inr f''" and
      h': "num_hashes f'' = num_hashes f'" and
      l': "length (buckets f'') = length (buckets f')" and
      c': "\<forall>i<length (buckets f').
             buckets f'' ! i = (buckets f' ! i \<or> (\<exists>w\<in>set vs. i \<in> probes H f' w))"
      by blast
    have nz'': "numBuckets f'' \<noteq> 0"
      using nz' l' by (simp add: numBuckets_def)
    have "probes H f'' v = probes H f' v"
      using h' l' by (rule probes_cong)
    then have "\<forall>i\<in>probes H f'' v. buckets f'' ! i"
      using set' c' probes_less [OF nz', of _ H v] by auto
    then have "contains H f'' v = Inr True"
      by (simp add: contains_Inr [OF nz''])
    with r' show ?thesis
      by simp
  qed
  have mono: "\<exists>f''. record_all H f vs = Inr f'' \<and> length (buckets f'') = length (buckets f) \<and>
                (\<forall>i<length (buckets f). buckets f ! i \<longrightarrow> buckets f'' ! i)" for vs
    using record_all_Inr [OF nz, of H vs] by auto
  from r now later mono show ?thesis
    by blast
qed

theorem no_false_negatives_witness:
  "0 < numBuckets (BloomFilter 20 2) \<and>
   (\<exists>f'. record_value std_hash_int (BloomFilter 20 2) 230 = Inr f' \<and>
      contains std_hash_int f' 230 = Inr True \<and>
      (\<exists>f''. record_all std_hash_int f' [233, 7] = Inr f'' \<and>
         contains std_hash_int f'' 230 = Inr True))"
proof -
  have h: "0 < numBuckets (BloomFilter 20 2)"
    by (simp add: numBuckets_def BloomFilter_def)
  from no_false_negatives [OF h, of std_hash_int 230] h show ?thesis
    by blast
qed

subsection \<open>Double hashing\<close>

text \<open>
  Once the two base hashes are there, both loops do the same with them: on a filter with
  at least one bucket, \<open>record\<close> returns the filter in which exactly the buckets
  \<open>(hash_a + n * hash_b) mod numBuckets\<close>, for \<open>n\<close> below \<open>numHashes\<close>, have been set (in
  64-bit arithmetic), and \<open>contains\<close> returns whether all of these same buckets are set.
\<close>

lemma probe_sequence:
  assumes "0 < numBuckets f"
  shows "\<exists>hash_a hash_b f'. hash H v = (hash_a, hash_b) \<and>
            record_value H f v = Inr f' \<and>
            numHashes f' = numHashes f \<and> length (buckets f') = length (buckets f) \<and>
            (\<forall>i<length (buckets f). buckets f' ! i =
               (buckets f ! i \<or>
                (\<exists>n<numHashes f. i = unat ((hash_a + n * hash_b) mod numBuckets f)))) \<and>
            contains H f v =
              Inr (\<forall>n<numHashes f. buckets f ! unat ((hash_a + n * hash_b) mod numBuckets f))"
proof -
  have nz: "numBuckets f \<noteq> 0"
    using assms by simp
  obtain a b where ab: "hash H v = (a, b)"
    by (cases "hash H v")
  have p: "probes H f v = {unat ((a + n * b) mod numBuckets f) | n. n < numHashes f}"
    by (simp add: probes_def ab nth_hash_def)
  from record_value_Inr [OF nz, of H v]
  obtain f' where
    r: "record_value H f v = Inr f'" and
    h: "num_hashes f' = num_hashes f" and
    l: "length (buckets f') = length (buckets f)" and
    c: "\<forall>i<length (buckets f). buckets f' ! i = (buckets f ! i \<or> i \<in> probes H f v)"
    by blast
  have c': "\<forall>i<length (buckets f). buckets f' ! i =
              (buckets f ! i \<or> (\<exists>n<numHashes f. i = unat ((a + n * b) mod numBuckets f)))"
    using c unfolding p by auto
  have "(\<forall>i\<in>probes H f v. buckets f ! i) =
        (\<forall>n<numHashes f. buckets f ! unat ((a + n * b) mod numBuckets f))"
    unfolding p by auto
  then have q: "contains H f v =
                  Inr (\<forall>n<numHashes f. buckets f ! unat ((a + n * b) mod numBuckets f))"
    by (simp add: contains_Inr [OF nz])
  show ?thesis
    apply (rule exI [of _ a], rule exI [of _ b], rule exI [of _ f'])
    using ab r h l c' q by (simp add: numHashes_def)
qed



subsection \<open>Filters without buckets\<close>

text \<open>
  C10. The constructor accepts \<open>num_buckets = 0\<close> and then builds a filter without buckets.
  \<open>record\<close> and \<open>contains\<close> fail to return exactly when the filter has no bucket and
  \<open>numHashes\<close> is positive, and what they then run into is the remainder by zero; with at
  least one bucket they return, so no iteration reads or writes outside the vector.
\<close>

theorem modulo_by_zero_without_buckets:
  "numBuckets (BloomFilter 0 n_hashes) = 0 \<and>
   (isl (record_value H f v) \<longleftrightarrow> numBuckets f = 0 \<and> 0 < numHashes f) \<and>
   (isl (contains H f v) \<longleftrightarrow> numBuckets f = 0 \<and> 0 < numHashes f) \<and>
   (numBuckets f = 0 \<and> 0 < numHashes f \<longrightarrow>
      record_value H f v = Inl ModuloByZero \<and> contains H f v = Inl ModuloByZero) \<and>
   (0 < numBuckets f \<longrightarrow> (\<exists>f'. record_value H f v = Inr f') \<and> (\<exists>b. contains H f v = Inr b))"
proof (cases "numBuckets f = 0")
  case True
  then show ?thesis
    by (simp add: record_value_empty contains_empty word_gt_0)
       (simp add: numBuckets_def BloomFilter_def)
next
  case False
  moreover from record_value_Inr [OF False, of H v]
  obtain f' where "record_value H f v = Inr f'"
    by blast
  moreover have "contains H f v = Inr (\<forall>i\<in>probes H f v. buckets f ! i)"
    by (rule contains_Inr [OF False])
  ultimately show ?thesis
    by (simp add: numBuckets_def BloomFilter_def)
qed

theorem modulo_by_zero_without_buckets_witness:
  "numBuckets (BloomFilter 0 2) = 0 \<and> 0 < numHashes (BloomFilter 0 2) \<and>
   record_value std_hash_int (BloomFilter 0 2) 7 = Inl ModuloByZero \<and>
   contains std_hash_int (BloomFilter 0 2) 7 = Inl ModuloByZero \<and>
   0 < numBuckets (BloomFilter 20 2) \<and>
   (\<exists>f'. record_value std_hash_int (BloomFilter 20 2) 7 = Inr f') \<and>
   (\<exists>b. contains std_hash_int (BloomFilter 20 2) 7 = Inr b)"
proof -
  have h: "numBuckets (BloomFilter 0 2) = 0 \<and> 0 < numHashes (BloomFilter 0 2)"
    by (simp add: numBuckets_def numHashes_def BloomFilter_def)
  have k: "0 < numBuckets (BloomFilter 20 2)"
    by (simp add: numBuckets_def BloomFilter_def)
  note a = modulo_by_zero_without_buckets [of 2 std_hash_int "BloomFilter 0 2" 7]
  note b = modulo_by_zero_without_buckets [of 2 std_hash_int "BloomFilter 20 2" 7]
  from a h have "record_value std_hash_int (BloomFilter 0 2) 7 = Inl ModuloByZero \<and>
                 contains std_hash_int (BloomFilter 0 2) 7 = Inl ModuloByZero"
    by simp
  moreover from b k have "(\<exists>f'. record_value std_hash_int (BloomFilter 20 2) 7 = Inr f') \<and>
                          (\<exists>b. contains std_hash_int (BloomFilter 20 2) 7 = Inr b)"
    by simp
  ultimately show ?thesis
    using h k by simp
qed

subsection \<open>Union and intersection\<close>

text \<open>
  Every filter that the constructor, \<open>record\<close>, \<open>filterUnion\<close> or \<open>filterIntersection\<close>
  returns is valid; on valid filters \<open>numBuckets\<close> determines the length of the vector.
\<close>

lemma valid_filter_unat:
  assumes "valid_filter f"
  shows "unat (numBuckets f) = length (buckets f)"
proof -
  have "length (buckets f) < 2 ^ LENGTH(64)"
    using assms by (simp add: valid_filter_def)
  then show ?thesis
    unfolding numBuckets_def by (rule of_nat_inverse [OF refl])
qed

lemma valid_filter_numBuckets_eq:
  assumes "valid_filter a" and "valid_filter b"
  shows "(numBuckets a = numBuckets b) = (length (buckets a) = length (buckets b))"
proof
  assume "numBuckets a = numBuckets b"
  then have "unat (numBuckets a) = unat (numBuckets b)"
    by simp
  then show "length (buckets a) = length (buckets b)"
    by (simp only: valid_filter_unat [OF assms(1)] valid_filter_unat [OF assms(2)])
next
  assume "length (buckets a) = length (buckets b)"
  then show "numBuckets a = numBuckets b"
    by (simp add: numBuckets_def)
qed

lemma valid_filter_BloomFilter:
  "valid_filter (BloomFilter n_buckets n_hashes)"
proof -
  have "unat n_buckets < 2 ^ 64"
    using unsigned_less [of n_buckets] by simp
  then show ?thesis
    unfolding valid_filter_def BloomFilter_def
    by (simp only: bloom_filter.simps length_replicate)
qed

lemma transform_same_length:
  assumes "length ys = length xs" and "length dest = length xs"
  shows "transform xs ys dest binary_op = Inr (map (\<lambda>(l, r). binary_op l r) (zip xs ys))"
  using assms by (simp add: transform_def)

lemma filterUnion_Inr:
  assumes "valid_filter a" and "numHashes a = numHashes b"
    and "length (buckets a) = length (buckets b)"
  shows "filterUnion a b =
           Inr \<lparr>num_hashes = num_hashes a,
                buckets = map (\<lambda>(l, r). l \<or> r) (zip (buckets a) (buckets b))\<rparr>"
proof -
  have "numBuckets a = numBuckets b"
    using assms(3) by (simp add: numBuckets_def)
  moreover have "length (buckets (BloomFilter (numBuckets a) (numHashes a))) = length (buckets a)"
    using valid_filter_unat [OF assms(1)] by (simp add: BloomFilter_def)
  ultimately show ?thesis
    using assms(2,3)
    by (simp add: filterUnion_def transform_same_length) (simp add: BloomFilter_def numHashes_def)
qed

lemma filterIntersection_Inr:
  assumes "valid_filter a" and "numHashes a = numHashes b"
    and "length (buckets a) = length (buckets b)"
  shows "filterIntersection a b =
           Inr \<lparr>num_hashes = num_hashes a,
                buckets = map (\<lambda>(l, r). l \<and> r) (zip (buckets a) (buckets b))\<rparr>"
proof -
  have "numBuckets a = numBuckets b"
    using assms(3) by (simp add: numBuckets_def)
  moreover have "length (buckets (BloomFilter (numBuckets a) (numHashes a))) = length (buckets a)"
    using valid_filter_unat [OF assms(1)] by (simp add: BloomFilter_def)
  ultimately show ?thesis
    using assms(2,3)
    by (simp add: filterIntersection_def transform_same_length)
       (simp add: BloomFilter_def numHashes_def)
qed

lemma filterUnion_Inl:
  assumes "numHashes a \<noteq> numHashes b \<or> numBuckets a \<noteq> numBuckets b"
  shows "\<exists>msg. filterUnion a b = Inl (RuntimeError msg)"
  using assms by (auto simp: filterUnion_def)

lemma filterIntersection_Inl:
  assumes "numHashes a \<noteq> numHashes b \<or> numBuckets a \<noteq> numBuckets b"
  shows "\<exists>msg. filterIntersection a b = Inl (RuntimeError msg)"
  using assms by (auto simp: filterIntersection_def)

text \<open>
  C6. For filters \<open>a\<close> and \<open>b\<close> (whose vectors have a size that fits \<open>std::size_t\<close>),
  \<open>filterUnion\<close> and \<open>filterIntersection\<close> fail exactly when the numbers of hashes or of
  buckets differ, and then by a reported error (the \<open>std::runtime_error\<close>); otherwise they
  return a filter with the same number of hashes and of buckets, each bucket being the
  disjunction, respectively the conjunction, of the two buckets at its index. The
  arguments are values of the model and cannot change.
\<close>

theorem union_intersection_shape:
  assumes "valid_filter a" and "valid_filter b"
  shows "(isl (filterUnion a b) \<longleftrightarrow> numHashes a \<noteq> numHashes b \<or> numBuckets a \<noteq> numBuckets b) \<and>
         (isl (filterIntersection a b) \<longleftrightarrow>
            numHashes a \<noteq> numHashes b \<or> numBuckets a \<noteq> numBuckets b) \<and>
         (\<forall>e. filterUnion a b = Inl e \<or> filterIntersection a b = Inl e \<longrightarrow> reported e) \<and>
         (numHashes a = numHashes b \<and> numBuckets a = numBuckets b \<longrightarrow>
            (\<exists>u. filterUnion a b = Inr u \<and>
               numHashes u = numHashes a \<and> numBuckets u = numBuckets a \<and>
               length (buckets u) = length (buckets a) \<and>
               (\<forall>i<length (buckets a). buckets u ! i = (buckets a ! i \<or> buckets b ! i))) \<and>
            (\<exists>n. filterIntersection a b = Inr n \<and>
               numHashes n = numHashes a \<and> numBuckets n = numBuckets a \<and>
               length (buckets n) = length (buckets a) \<and>
               (\<forall>i<length (buckets a). buckets n ! i = (buckets a ! i \<and> buckets b ! i))))"
proof (cases "numHashes a = numHashes b \<and> numBuckets a = numBuckets b")
  case False
  then have m: "numHashes a \<noteq> numHashes b \<or> numBuckets a \<noteq> numBuckets b"
    by simp
  from filterUnion_Inl [OF m] obtain msg where u: "filterUnion a b = Inl (RuntimeError msg)"
    by blast
  from filterIntersection_Inl [OF m] obtain msg' where
    n: "filterIntersection a b = Inl (RuntimeError msg')"
    by blast
  have "\<forall>e. filterUnion a b = Inl e \<or> filterIntersection a b = Inl e \<longrightarrow> reported e"
    unfolding u n by auto
  with False m show ?thesis
    unfolding u n by simp
next
  case True
  then have h: "numHashes a = numHashes b" and l: "length (buckets a) = length (buckets b)"
    using valid_filter_numBuckets_eq [OF assms] by simp_all
  note u = filterUnion_Inr [OF assms(1) h l]
  note n = filterIntersection_Inr [OF assms(1) h l]
  have "\<exists>u. filterUnion a b = Inr u \<and>
          numHashes u = numHashes a \<and> numBuckets u = numBuckets a \<and>
          length (buckets u) = length (buckets a) \<and>
          (\<forall>i<length (buckets a). buckets u ! i = (buckets a ! i \<or> buckets b ! i))"
    unfolding u using l by (simp add: numHashes_def numBuckets_def)
  moreover have "\<exists>n. filterIntersection a b = Inr n \<and>
          numHashes n = numHashes a \<and> numBuckets n = numBuckets a \<and>
          length (buckets n) = length (buckets a) \<and>
          (\<forall>i<length (buckets a). buckets n ! i = (buckets a ! i \<and> buckets b ! i))"
    unfolding n using l by (simp add: numHashes_def numBuckets_def)
  moreover have "\<not> isl (filterUnion a b)" "\<not> isl (filterIntersection a b)"
    unfolding u n by simp_all
  moreover have "\<forall>e. filterUnion a b = Inl e \<or> filterIntersection a b = Inl e \<longrightarrow> reported e"
    unfolding u n by simp
  ultimately show ?thesis
    using True by blast
qed

theorem union_intersection_shape_witness:
  "valid_filter \<lparr>num_hashes = 2, buckets = [True, False, False]\<rparr> \<and>
   valid_filter \<lparr>num_hashes = 2, buckets = [False, False, True]\<rparr> \<and>
   valid_filter \<lparr>num_hashes = 3, buckets = [False, False, True]\<rparr> \<and>
   filterUnion \<lparr>num_hashes = 2, buckets = [True, False, False]\<rparr>
               \<lparr>num_hashes = 3, buckets = [False, False, True]\<rparr> =
     Inl (RuntimeError ''error! number of hashes dont match for union'') \<and>
   reported (RuntimeError ''error! number of hashes dont match for union'') \<and>
   (\<exists>u. filterUnion \<lparr>num_hashes = 2, buckets = [True, False, False]\<rparr>
                     \<lparr>num_hashes = 2, buckets = [False, False, True]\<rparr> = Inr u \<and>
      numHashes u = numHashes \<lparr>num_hashes = 2, buckets = [True, False, False]\<rparr> \<and>
      numBuckets u = numBuckets \<lparr>num_hashes = 2, buckets = [True, False, False]\<rparr> \<and>
      length (buckets u) = length (buckets \<lparr>num_hashes = 2, buckets = [True, False, False]\<rparr>) \<and>
      (\<forall>i<length (buckets \<lparr>num_hashes = 2, buckets = [True, False, False]\<rparr>).
         buckets u ! i =
           (buckets \<lparr>num_hashes = 2, buckets = [True, False, False]\<rparr> ! i \<or>
            buckets \<lparr>num_hashes = 2, buckets = [False, False, True]\<rparr> ! i)))"
proof -
  let ?a = "\<lparr>num_hashes = 2, buckets = [True, False, False]\<rparr>"
  let ?b = "\<lparr>num_hashes = 2, buckets = [False, False, True]\<rparr>"
  let ?c = "\<lparr>num_hashes = 3, buckets = [False, False, True]\<rparr>"
  let ?e = "RuntimeError ''error! number of hashes dont match for union''"
  have va: "valid_filter ?a" and vb: "valid_filter ?b" and vc: "valid_filter ?c"
    by (simp_all add: valid_filter_def)
  have same: "numHashes ?a = numHashes ?b \<and> numBuckets ?a = numBuckets ?b"
    by (simp add: numHashes_def numBuckets_def)
  have thrown: "filterUnion ?a ?c = Inl ?e"
    by (simp add: filterUnion_def numHashes_def)
  then have either: "filterUnion ?a ?c = Inl ?e \<or> filterIntersection ?a ?c = Inl ?e"
    by (rule disjI1)
  note is_reported = union_intersection_shape [OF va vc, THEN conjunct2, THEN conjunct2,
      THEN conjunct1, THEN spec, THEN mp, OF either]
  note match = union_intersection_shape [OF va vb, THEN conjunct2, THEN conjunct2,
      THEN conjunct2, THEN mp, OF same, THEN conjunct1]
  from va vb vc thrown is_reported match show ?thesis
    by (intro conjI)
qed

lemma contains_True_iff:
  "contains H f v = Inr True \<longleftrightarrow>
     (if numBuckets f = 0 then numHashes f = 0 else (\<forall>i\<in>probes H f v. buckets f ! i))"
  by (simp add: contains_empty contains_Inr)

text \<open>
  C7. For filters \<open>A\<close> and \<open>B\<close> with the same number of hashes and of buckets, both
  operations return, whichever way round the arguments are given, and the two results
  are equal under \<open>==\<close>; and a value that \<open>A\<close> or \<open>B\<close> contains is contained in their union.
\<close>

theorem union_contains_and_commutes:
  assumes "valid_filter A" and "valid_filter B"
    and "numHashes A = numHashes B" and "numBuckets A = numBuckets B"
  shows "\<exists>U U' I I'.
           filterUnion A B = Inr U \<and> filterUnion B A = Inr U' \<and> operator_eq U U' \<and>
           filterIntersection A B = Inr I \<and> filterIntersection B A = Inr I' \<and>
           operator_eq I I' \<and>
           (contains H A x = Inr True \<or> contains H B x = Inr True \<longrightarrow>
              contains H U x = Inr True)"
proof -
  have l: "length (buckets A) = length (buckets B)"
    using valid_filter_numBuckets_eq [OF assms(1,2)] assms(4) by simp
  let ?U = "\<lparr>num_hashes = num_hashes A,
              buckets = map (\<lambda>(l, r). l \<or> r) (zip (buckets A) (buckets B))\<rparr>"
  let ?U' = "\<lparr>num_hashes = num_hashes B,
               buckets = map (\<lambda>(l, r). l \<or> r) (zip (buckets B) (buckets A))\<rparr>"
  let ?I = "\<lparr>num_hashes = num_hashes A,
              buckets = map (\<lambda>(l, r). l \<and> r) (zip (buckets A) (buckets B))\<rparr>"
  let ?I' = "\<lparr>num_hashes = num_hashes B,
               buckets = map (\<lambda>(l, r). l \<and> r) (zip (buckets B) (buckets A))\<rparr>"
  have u: "filterUnion A B = Inr ?U"
    by (rule filterUnion_Inr [OF assms(1,3) l])
  have u': "filterUnion B A = Inr ?U'"
    by (rule filterUnion_Inr [OF assms(2) assms(3) [symmetric] l [symmetric]])
  have i: "filterIntersection A B = Inr ?I"
    by (rule filterIntersection_Inr [OF assms(1,3) l])
  have i': "filterIntersection B A = Inr ?I'"
    by (rule filterIntersection_Inr [OF assms(2) assms(3) [symmetric] l [symmetric]])
  have h: "num_hashes A = num_hashes B"
    using assms(3) by (simp add: numHashes_def)
  have "buckets ?U = buckets ?U'"
    using l by (intro nth_equalityI) auto
  with h have uu: "operator_eq ?U ?U'"
    by (simp add: operator_eq_def)
  have "buckets ?I = buckets ?I'"
    using l by (intro nth_equalityI) auto
  with h have ii: "operator_eq ?I ?I'"
    by (simp add: operator_eq_def)
  have nU: "numBuckets ?U = numBuckets A" and hU: "numHashes ?U = numHashes A"
    using l by (simp_all add: numBuckets_def numHashes_def)
  have pA: "probes H ?U x = probes H A x"
    using l by (intro probes_cong) simp_all
  have pB: "probes H B x = probes H A x"
    using l h by (intro probes_cong) simp_all
  have c: "contains H ?U x = Inr True"
    if "contains H A x = Inr True \<or> contains H B x = Inr True"
  proof (cases "numBuckets A = 0")
    case True
    with that assms(3,4) show ?thesis
      by (auto simp: contains_True_iff nU hU)
  next
    case False
    have "\<forall>i\<in>probes H ?U x. buckets ?U ! i"
    proof
      fix k assume k: "k \<in> probes H ?U x"
      then have kl: "k < length (buckets A)"
        using probes_less [OF False, of k H x] by (simp add: pA)
      from that k have "buckets A ! k \<or> buckets B ! k"
        using False assms(4) by (auto simp: contains_True_iff pA pB)
      with kl l show "buckets ?U ! k"
        by simp
    qed
    with False show ?thesis
      by (simp add: contains_True_iff nU)
  qed
  from u u' uu i i' ii c show ?thesis
    by blast
qed

lemma contains_first_bucket:
  "contains std_hash_int \<lparr>num_hashes = 2, buckets = [True, False, False]\<rparr> 0 = Inr True"
  by code_simp

theorem union_contains_and_commutes_witness:
  "valid_filter \<lparr>num_hashes = 2, buckets = [True, False, False]\<rparr> \<and>
   valid_filter \<lparr>num_hashes = 2, buckets = [False, False, True]\<rparr> \<and>
   numHashes \<lparr>num_hashes = 2, buckets = [True, False, False]\<rparr> =
     numHashes \<lparr>num_hashes = 2, buckets = [False, False, True]\<rparr> \<and>
   numBuckets \<lparr>num_hashes = 2, buckets = [True, False, False]\<rparr> =
     numBuckets \<lparr>num_hashes = 2, buckets = [False, False, True]\<rparr> \<and>
   contains std_hash_int \<lparr>num_hashes = 2, buckets = [True, False, False]\<rparr> 0 = Inr True \<and>
   (\<exists>U U' I I'.
      filterUnion \<lparr>num_hashes = 2, buckets = [True, False, False]\<rparr>
                  \<lparr>num_hashes = 2, buckets = [False, False, True]\<rparr> = Inr U \<and>
      filterUnion \<lparr>num_hashes = 2, buckets = [False, False, True]\<rparr>
                  \<lparr>num_hashes = 2, buckets = [True, False, False]\<rparr> = Inr U' \<and>
      operator_eq U U' \<and>
      filterIntersection \<lparr>num_hashes = 2, buckets = [True, False, False]\<rparr>
                         \<lparr>num_hashes = 2, buckets = [False, False, True]\<rparr> = Inr I \<and>
      filterIntersection \<lparr>num_hashes = 2, buckets = [False, False, True]\<rparr>
                         \<lparr>num_hashes = 2, buckets = [True, False, False]\<rparr> = Inr I' \<and>
      operator_eq I I' \<and>
      contains std_hash_int U 0 = Inr True)"
proof -
  let ?a = "\<lparr>num_hashes = 2, buckets = [True, False, False]\<rparr>"
  let ?b = "\<lparr>num_hashes = 2, buckets = [False, False, True]\<rparr>"
  have va: "valid_filter ?a" and vb: "valid_filter ?b"
    by (simp_all add: valid_filter_def)
  have h: "numHashes ?a = numHashes ?b" and n: "numBuckets ?a = numBuckets ?b"
    by (simp_all add: numHashes_def numBuckets_def)
  from union_contains_and_commutes [OF va vb h n, of std_hash_int 0]
  obtain U U' I I' where
    "filterUnion ?a ?b = Inr U" "filterUnion ?b ?a = Inr U'" "operator_eq U U'"
    "filterIntersection ?a ?b = Inr I" "filterIntersection ?b ?a = Inr I'" "operator_eq I I'"
    "contains std_hash_int ?a 0 = Inr True \<or> contains std_hash_int ?b 0 = Inr True \<longrightarrow>
       contains std_hash_int U 0 = Inr True"
    by (elim exE conjE)
  with contains_first_bucket have "\<exists>U U' I I'.
      filterUnion ?a ?b = Inr U \<and> filterUnion ?b ?a = Inr U' \<and> operator_eq U U' \<and>
      filterIntersection ?a ?b = Inr I \<and> filterIntersection ?b ?a = Inr I' \<and>
      operator_eq I I' \<and> contains std_hash_int U 0 = Inr True"
    by (intro exI [of _ U] exI [of _ U'] exI [of _ I] exI [of _ I'] conjI) simp_all
  with va vb h n contains_first_bucket show ?thesis
    by (intro conjI)
qed

subsection \<open>Equality\<close>

text \<open>
  The record has no other field, so \<open>==\<close> is equality of filters; and what a sequence of
  \<open>record\<close> calls does depends only on which values it records.
\<close>

lemma operator_eq_iff [simp]: "operator_eq a b \<longleftrightarrow> a = b"
  by (cases a, cases b) (simp add: operator_eq_def)

lemma record_all_mset:
  assumes "mset vs = mset ws"
  shows "record_all H f vs = record_all H f ws"
proof (cases "numBuckets f = 0")
  case True
  from assms have "(vs = []) = (ws = [])"
    by (metis mset_zero_iff)
  then show ?thesis
    by (simp add: record_all_empty [OF True])
next
  case False
  from assms have s: "set vs = set ws"
    by (rule mset_eq_setD)
  from record_all_Inr [OF False, of H vs]
  obtain f1 where
    r1: "record_all H f vs = Inr f1" and
    h1: "num_hashes f1 = num_hashes f" and
    l1: "length (buckets f1) = length (buckets f)" and
    c1: "\<forall>i<length (buckets f).
           buckets f1 ! i = (buckets f ! i \<or> (\<exists>v\<in>set vs. i \<in> probes H f v))"
    by blast
  from record_all_Inr [OF False, of H ws]
  obtain f2 where
    r2: "record_all H f ws = Inr f2" and
    h2: "num_hashes f2 = num_hashes f" and
    l2: "length (buckets f2) = length (buckets f)" and
    c2: "\<forall>i<length (buckets f).
           buckets f2 ! i = (buckets f ! i \<or> (\<exists>v\<in>set ws. i \<in> probes H f v))"
    by blast
  have "buckets f1 = buckets f2"
    using l1 l2 c1 c2 s by (intro nth_equalityI) simp_all
  with h1 h2 have "f1 = f2"
    by (cases f1, cases f2) simp
  with r1 r2 show ?thesis
    by simp
qed

text \<open>
  C8. \<open>==\<close> holds exactly when the numbers of hashes are the same and the bucket vectors
  have the same length and the same element at every index. Hence two filters built by
  the constructor from the same arguments are equal; recording the same multiset of
  values into two equal filters, in any order, gives equal filters again (and does
  return when there is at least one bucket); and when \<open>record\<close> changes the buckets of one
  of two equal filters, that filter is no longer equal to the other one.
\<close>

theorem filter_equality:
  "(operator_eq a b \<longleftrightarrow>
      numHashes a = numHashes b \<and> length (buckets a) = length (buckets b) \<and>
      (\<forall>i<length (buckets a). buckets a ! i = buckets b ! i)) \<and>
   operator_eq (BloomFilter n_buckets n_hashes) (BloomFilter n_buckets n_hashes) \<and>
   (operator_eq a b \<and> mset vs = mset ws \<longrightarrow>
      (\<forall>a'. record_all H a vs = Inr a' \<longrightarrow>
         (\<exists>b'. record_all H b ws = Inr b' \<and> operator_eq a' b')) \<and>
      (0 < numBuckets a \<longrightarrow>
         (\<exists>a' b'. record_all H a vs = Inr a' \<and> record_all H b ws = Inr b' \<and>
            operator_eq a' b'))) \<and>
   (operator_eq a b \<and> record_value H a v = Inr a2 \<and> buckets a2 \<noteq> buckets a \<longrightarrow>
      \<not> operator_eq a2 b)"
proof (intro conjI)
  show "operator_eq a b \<longleftrightarrow>
          numHashes a = numHashes b \<and> length (buckets a) = length (buckets b) \<and>
          (\<forall>i<length (buckets a). buckets a ! i = buckets b ! i)"
    by (simp del: operator_eq_iff add: operator_eq_def numHashes_def list_eq_iff_nth_eq)
  show "operator_eq (BloomFilter n_buckets n_hashes) (BloomFilter n_buckets n_hashes)"
    by simp
  show "operator_eq a b \<and> mset vs = mset ws \<longrightarrow>
      (\<forall>a'. record_all H a vs = Inr a' \<longrightarrow>
         (\<exists>b'. record_all H b ws = Inr b' \<and> operator_eq a' b')) \<and>
      (0 < numBuckets a \<longrightarrow>
         (\<exists>a' b'. record_all H a vs = Inr a' \<and> record_all H b ws = Inr b' \<and>
            operator_eq a' b'))"
  proof
    assume "operator_eq a b \<and> mset vs = mset ws"
    then have ab: "b = a" and m: "mset vs = mset ws"
      by simp_all
    note same = record_all_mset [OF m, of H a]
    have "\<exists>a' b'. record_all H a vs = Inr a' \<and> record_all H a ws = Inr b' \<and> operator_eq a' b'"
      if "0 < numBuckets a"
    proof -
      from that have "numBuckets a \<noteq> 0"
        by simp
      from record_all_Inr [OF this, of H vs] obtain a' where r: "record_all H a vs = Inr a'"
        by blast
      with same have "record_all H a ws = Inr a'"
        by simp
      with r show ?thesis
        by simp
    qed
    with same show "(\<forall>a'. record_all H a vs = Inr a' \<longrightarrow>
         (\<exists>b'. record_all H b ws = Inr b' \<and> operator_eq a' b')) \<and>
      (0 < numBuckets a \<longrightarrow>
         (\<exists>a' b'. record_all H a vs = Inr a' \<and> record_all H b ws = Inr b' \<and>
            operator_eq a' b'))"
      unfolding ab by simp
  qed
  show "operator_eq a b \<and> record_value H a v = Inr a2 \<and> buckets a2 \<noteq> buckets a \<longrightarrow>
          \<not> operator_eq a2 b"
    by auto
qed

lemma record_232:
  "record_value std_hash_int (BloomFilter 20 2) 232 =
     Inr \<lparr>num_hashes = 2,
          buckets = [False, False, False, False, False, False, True, False, False, False,
                     False, False, True, False, False, False, False, False, False, False]\<rparr>"
  by code_simp

theorem filter_equality_witness:
  "operator_eq (BloomFilter 20 2) (BloomFilter 20 2) \<and>
   mset [1, 0 :: int] = mset [0, 1] \<and> 0 < numBuckets (BloomFilter 20 2) \<and>
   (\<exists>a' b'. record_all std_hash_int (BloomFilter 20 2) [1, 0] = Inr a' \<and>
      record_all std_hash_int (BloomFilter 20 2) [0, 1] = Inr b' \<and> operator_eq a' b') \<and>
   record_value std_hash_int (BloomFilter 20 2) 232 =
     Inr \<lparr>num_hashes = 2,
          buckets = [False, False, False, False, False, False, True, False, False, False,
                     False, False, True, False, False, False, False, False, False, False]\<rparr> \<and>
   \<not> operator_eq
       \<lparr>num_hashes = 2,
        buckets = [False, False, False, False, False, False, True, False, False, False,
                   False, False, True, False, False, False, False, False, False, False]\<rparr>
       (BloomFilter 20 2)"
proof -
  let ?f = "BloomFilter 20 2"
  let ?g = "\<lparr>num_hashes = 2,
          buckets = [False, False, False, False, False, False, True, False, False, False,
                     False, False, True, False, False, False, False, False, False, False]\<rparr>"
  have e: "operator_eq ?f ?f"
    by simp
  have m: "mset [1, 0 :: int] = mset [0, 1]"
    by simp
  have p: "0 < numBuckets ?f"
    by (simp add: numBuckets_def BloomFilter_def)
  have c: "buckets ?g \<noteq> buckets ?f"
    by code_simp
  note t = filter_equality [of ?f ?f 20 2 "[1, 0]" "[0, 1]" std_hash_int 232 ?g]
  from t e m p have "\<exists>a' b'. record_all std_hash_int ?f [1, 0] = Inr a' \<and>
      record_all std_hash_int ?f [0, 1] = Inr b' \<and> operator_eq a' b'"
    by blast
  moreover from t e record_232 c have "\<not> operator_eq ?g ?f"
    by blast
  ultimately show ?thesis
    using e m p record_232 by (intro conjI)
qed

section \<open>Properties of the sampler\<close>

subsection \<open>Conversions between \<open>std::size_t\<close> and \<open>int\<close>\<close>

text \<open>
  A count below \<open>2^31\<close> keeps its value as an \<open>int\<close>; the count \<open>2^31\<close> becomes
  \<open>-2^31\<close>. A non-negative \<open>int\<close> keeps its value as a \<open>std::size_t\<close>.
\<close>

lemma size_t_to_int_eq: "size_t_to_int n = signed_take_bit 31 (uint n)"
  by (simp add: size_t_to_int_def signed_ucast_eq)

lemma size_t_to_int_small:
  assumes "uint n < 2 ^ 31"
  shows "size_t_to_int n = uint n"
proof -
  have "- (2 ^ 31) \<le> (0 :: int)"
    by simp
  also have "0 \<le> uint n"
    by simp
  finally have "signed_take_bit 31 (uint n) = uint n"
    using assms by (rule signed_take_bit_int_eq_self)
  then show ?thesis
    by (simp only: size_t_to_int_eq)
qed

lemma size_t_to_int_int_max_plus_one:
  "size_t_to_int 2147483648 = - 2147483648"
  by (simp add: size_t_to_int_def)

lemma int_to_size_t_uint:
  assumes "0 \<le> j" and "j < 2 ^ 31"
  shows "uint (int_to_size_t j) = j"
proof -
  have "(2 :: int) ^ 31 \<le> 2 ^ 64"
    by simp
  with assms(2) have "j < 2 ^ 64"
    by (rule less_le_trans)
  with assms(1) have "take_bit 64 j = j"
    by (rule take_bit_int_eq_self)
  then show ?thesis
    by (simp add: int_to_size_t_def uint_word_of_int_eq)
qed

lemma int_to_size_t_less:
  assumes "0 \<le> j" and "j < 2 ^ 31"
  shows "(int_to_size_t j < n) = (j < uint n)"
  by (simp only: word_less_def int_to_size_t_uint [OF assms])

lemma int_to_size_t_unat:
  assumes "0 \<le> j" and "j < 2 ^ 31"
  shows "unat (int_to_size_t j) = nat j"
  by (simp only: unat_eq_nat_uint int_to_size_t_uint [OF assms])

lemma uint_less_of_unat_less:
  assumes "unat (n :: Index) < 2 ^ 31"
  shows "uint n < 2 ^ 31"
  using assms by (simp only: uint_nat of_nat_less_numeral_power_cancel_iff)

lemma unat_plus_one:
  assumes "unat (n :: Index) < 2 ^ 31"
  shows "unat (n + 1) = unat n + 1"
proof -
  have "(2 :: nat) ^ 31 < 2 ^ 64"
    by simp
  with assms have "unat n < 2 ^ 64 - 1"
    by simp
  then have "unat n + 1 < 2 ^ 64"
    by simp
  then show ?thesis
    by (simp add: unat_word_ariths)
qed

subsection \<open>One call of \<open>process\<close>\<close>

text \<open>
  On a sampler that satisfies the size invariant and has processed fewer than \<open>2^31\<close>
  values, with a distribution that keeps its promise: the number \<open>j\<close> is drawn from
  \<open>[0, numProcessed()]\<close>, with the count as it is before the call; the value is accepted
  exactly when \<open>j < numToSample()\<close>; an accepted value is appended while the reservoir
  holds fewer than \<open>numToSample()\<close> values and otherwise replaces the one at index \<open>j\<close>;
  the count goes up by one either way; and the call returns whether the value was
  accepted.
\<close>

lemma process_below_int_max:
  assumes "in_bounds draw" and "reservoir_inv s" and "unat (numProcessed s) < 2 ^ 31"
  shows "\<exists>j g. draw 0 (uint (numProcessed s)) (rand_gen s) = (j, g) \<and>
           0 \<le> j \<and> j \<le> uint (numProcessed s) \<and>
           process draw s v =
             Inr (j < uint (numToSample s),
                  s\<lparr>rand_gen := g,
                    samples :=
                      (if j < uint (numToSample s)
                       then (if length (samples s) < unat (numToSample s)
                             then samples s @ [v] else (samples s)[nat j := v])
                       else samples s),
                    num_processed := num_processed s + 1\<rparr>) \<and>
           unat (num_processed s + 1) = unat (num_processed s) + 1"
proof -
  let ?np = "numProcessed s" and ?k = "numToSample s"
  obtain j g where d: "draw 0 (uint ?np) (rand_gen s) = (j, g)"
    by (cases "draw 0 (uint ?np) (rand_gen s)")
  have small: "uint ?np < 2 ^ 31"
    using assms(3) by (rule uint_less_of_unat_less)
  have upper: "size_t_to_int ?np = uint ?np"
    using small by (rule size_t_to_int_small)
  have "0 \<le> uint ?np"
    by simp
  with assms(1) have "0 \<le> fst (draw 0 (uint ?np) (rand_gen s)) \<and>
                      fst (draw 0 (uint ?np) (rand_gen s)) \<le> uint ?np"
    unfolding in_bounds_def by blast
  then have j0: "0 \<le> j" and jn: "j \<le> uint ?np"
    by (simp_all add: d)
  from jn small have j31: "j < 2 ^ 31"
    by (rule le_less_trans)
  note lt = int_to_size_t_less [OF j0 j31]
  note ix = int_to_size_t_unat [OF j0 j31]
  have len: "length (samples s) = min (unat ?np) (unat ?k)"
    using assms(2) by (simp only: reservoir_inv_def)
  have step: "unat (num_processed s + 1) = unat (num_processed s) + 1"
    using assms(3) unfolding numProcessed_def by (rule unat_plus_one)
  have nonneg: "\<not> uint ?np < 0"
    by simp
  have p: "process draw s v =
             Inr (j < uint ?k,
                  s\<lparr>rand_gen := g,
                    samples :=
                      (if j < uint ?k
                       then (if length (samples s) < unat ?k
                             then samples s @ [v] else (samples s)[nat j := v])
                       else samples s),
                    num_processed := num_processed s + 1\<rparr>)"
  proof (cases "j < uint ?k")
    case False
    then show ?thesis
      unfolding process_def
      by (simp add: upper [unfolded numProcessed_def] d [unfolded numProcessed_def] Let_def lt
            numToSample_def numProcessed_def)
  next
    case True
    then have jk: "nat j < unat ?k"
      by (simp only: unat_eq_nat_uint nat_less_eq_zless [OF j0])
    show ?thesis
    proof (cases "?k \<le> ?np")
      case full: True
      then have "unat ?k \<le> unat ?np"
        by (simp only: word_le_nat_alt)
      with len have l: "length (samples s) = unat ?k"
        by simp
      with jk have "nat j < length (samples s)"
        by simp
      with True full l show ?thesis
        unfolding process_def
        by (simp add: upper [unfolded numProcessed_def] d [unfolded numProcessed_def] Let_def lt ix
              numToSample_def numProcessed_def)
    next
      case False
      then have "unat ?np < unat ?k"
        by (simp add: word_le_nat_alt)
      with len have l: "length (samples s) < unat ?k"
        by simp
      with True False show ?thesis
        unfolding process_def
        by (simp add: upper [unfolded numProcessed_def] d [unfolded numProcessed_def] Let_def lt
            numToSample_def numProcessed_def)
    qed
  qed
  from d j0 jn p step show ?thesis
    by blast
qed

lemma process_step_inv:
  assumes "in_bounds draw" and "reservoir_inv s" and "unat (numProcessed s) < 2 ^ 31"
  shows "\<exists>accepted s1. process draw s v = Inr (accepted, s1) \<and> reservoir_inv s1 \<and>
           numToSample s1 = numToSample s \<and>
           unat (numProcessed s1) = unat (numProcessed s) + 1 \<and>
           (unat (numProcessed s) < unat (numToSample s) \<longrightarrow>
              accepted \<and> samples s1 = samples s @ [v])"
proof -
  let ?np = "unat (numProcessed s)" and ?k = "unat (numToSample s)"
  from process_below_int_max [OF assms, of v]
  obtain j g where
    j0: "0 \<le> j" and jn: "j \<le> uint (numProcessed s)" and
    p: "process draw s v =
          Inr (j < uint (numToSample s),
               s\<lparr>rand_gen := g,
                 samples :=
                   (if j < uint (numToSample s)
                    then (if length (samples s) < unat (numToSample s)
                          then samples s @ [v] else (samples s)[nat j := v])
                    else samples s),
                 num_processed := num_processed s + 1\<rparr>)" and
    step: "unat (num_processed s + 1) = unat (num_processed s) + 1"
    by blast
  let ?s1 = "s\<lparr>rand_gen := g,
                 samples :=
                   (if j < uint (numToSample s)
                    then (if length (samples s) < unat (numToSample s)
                          then samples s @ [v] else (samples s)[nat j := v])
                    else samples s),
                 num_processed := num_processed s + 1\<rparr>"
  have len: "length (samples s) = min ?np ?k"
    using assms(2) by (simp only: reservoir_inv_def)
  have jn': "nat j \<le> ?np"
    using jn by (simp only: unat_eq_nat_uint nat_mono)
  have acc: "(j < uint (numToSample s)) = (nat j < ?k)"
    by (simp only: unat_eq_nat_uint nat_less_eq_zless [OF j0])
  have np1: "unat (numProcessed ?s1) = ?np + 1"
    using step by (simp add: numProcessed_def)
  have k1: "numToSample ?s1 = numToSample s"
    by (simp add: numToSample_def)
  have "length (samples ?s1) = min (?np + 1) ?k"
    using len jn' unfolding acc by (simp split: if_splits)
  then have inv1: "reservoir_inv ?s1"
    unfolding reservoir_inv_def np1 k1 .
  have early: "(j < uint (numToSample s)) \<and> samples ?s1 = samples s @ [v]" if "?np < ?k"
    using that len jn' unfolding acc by simp
  from p inv1 k1 np1 early show ?thesis
    by blast
qed

subsection \<open>Sequences of calls\<close>

text \<open>
  From a sampler that satisfies the size invariant, every sequence of calls that ends
  with a count of at most \<open>2^31\<close> returns, keeps the invariant and the capacity, counts
  each call, and retains every value, in order, for as long as the reservoir is not full.
\<close>

lemma ReservoirSampling_initial:
  assumes "ReservoirSampling al k g = Inr s0"
  shows "reservoir_inv s0" and "numProcessed s0 = 0" and "numToSample s0 = k"
    and "samples s0 = []"
  using assms
  by (auto simp: ReservoirSampling_def reservoir_inv_def numProcessed_def numToSample_def
      split: option.splits)

lemma process_all_invariants:
  assumes "in_bounds draw" and "reservoir_inv s"
    and "unat (numProcessed s) + length vs \<le> 2 ^ 31"
  shows "\<exists>s'. process_all draw s vs = Inr s' \<and> reservoir_inv s' \<and>
           numToSample s' = numToSample s \<and>
           unat (numProcessed s') = unat (numProcessed s) + length vs \<and>
           (unat (numProcessed s) + length vs \<le> unat (numToSample s) \<longrightarrow>
              samples s' = samples s @ vs)"
  using assms(2,3)
proof (induction vs arbitrary: s)
  case Nil
  then show ?case
    by simp
next
  case (Cons v vs)
  from Cons.prems(2) have small: "unat (numProcessed s) < 2 ^ 31"
    by simp
  from process_step_inv [OF assms(1) Cons.prems(1) small, of v]
  obtain accepted s1 where
    p: "process draw s v = Inr (accepted, s1)" and
    i1: "reservoir_inv s1" and
    k1: "numToSample s1 = numToSample s" and
    n1: "unat (numProcessed s1) = unat (numProcessed s) + 1" and
    e1: "unat (numProcessed s) < unat (numToSample s) \<longrightarrow>
           accepted \<and> samples s1 = samples s @ [v]"
    by blast
  from Cons.prems(2) n1 have "unat (numProcessed s1) + length vs \<le> 2 ^ 31"
    by simp
  from Cons.IH [OF i1 this]
  obtain s' where
    r: "process_all draw s1 vs = Inr s'" and
    i': "reservoir_inv s'" and
    k': "numToSample s' = numToSample s1" and
    n': "unat (numProcessed s') = unat (numProcessed s1) + length vs" and
    e': "unat (numProcessed s1) + length vs \<le> unat (numToSample s1) \<longrightarrow>
           samples s' = samples s1 @ vs"
    by blast
  have "process_all draw s (v # vs) = Inr s'"
    by (simp add: p r)
  moreover have "unat (numProcessed s') = unat (numProcessed s) + length (v # vs)"
    using n' n1 by simp
  moreover have "samples s' = samples s @ v # vs"
    if "unat (numProcessed s) + length (v # vs) \<le> unat (numToSample s)"
    using that e1 e' n1 k1 by simp
  ultimately show ?case
    using i' k' k1 by simp
qed

lemma process_all_append:
  "process_all draw s (xs @ ys) =
     (case process_all draw s xs of Inl e \<Rightarrow> Inl e | Inr s' \<Rightarrow> process_all draw s' ys)"
  by (induction xs arbitrary: s) (auto split: sum.splits)

lemma process_at_limit:
  assumes "unat (numProcessed s) = 2 ^ 31"
  shows "process draw s v = Inl BadDistributionBounds"
proof -
  have "numProcessed s = of_nat (unat (numProcessed s))"
    by simp
  also have "\<dots> = 2147483648"
    unfolding assms by simp
  finally have "size_t_to_int (numProcessed s) < 0"
    by (simp add: size_t_to_int_int_max_plus_one)
  then show ?thesis
    by (simp add: process_def)
qed

subsection \<open>The limit of \<open>int\<close>\<close>

lemma in_bounds_draw_lower: "in_bounds draw_lower"
  by (simp add: in_bounds_def draw_lower_def)

text \<open>
  C2. The draw from \<open>[0, numProcessed()]\<close>, the acceptance test, the append or overwrite,
  the single increment and the returned flag are as \<open>process_below_int_max\<close> states them,
  as long as fewer than \<open>2^31\<close> values have been processed. The count is a \<open>std::size_t\<close>,
  though, and the distribution is one over \<open>int\<close>: on a sampler that has processed
  \<open>2^31 = 2147483648\<close> values (here one of capacity 1, holding one sample) the upper
  bound handed to the distribution is \<open>-2147483648\<close>, below the lower bound 0, and the
  call is undefined instead of drawing from \<open>[0, 2147483648]\<close>.
\<close>

theorem process_count_exceeds_int:
  "process draw \<lparr>rand_gen = g, num_to_sample = 1, num_processed = 2147483648, samples = [x]\<rparr> v
     = Inl BadDistributionBounds"
  by (rule process_at_limit) (simp add: numProcessed_def)

text \<open>
  C3. A sampler keeps the size invariant, retains all of the first \<open>k\<close> values and stays at
  \<open>k\<close> samples for every sequence of at most \<open>2^31\<close> calls (\<open>process_all_invariants\<close>). A
  longer sequence does not get that far: on a freshly constructed sampler of any
  capacity, with a distribution that keeps its promise, call number \<open>2^31 + 1\<close> hands the
  distribution the upper bound \<open>-2147483648\<close> and is undefined.
\<close>

theorem process_all_exceeds_int:
  assumes "in_bounds draw" and "ReservoirSampling al k g = Inr s0" and "2 ^ 31 < length vs"
  shows "process_all draw s0 vs = Inl BadDistributionBounds"
proof -
  let ?xs = "take (2 ^ 31) vs" and ?ys = "drop (2 ^ 31) vs"
  have lx: "length ?xs = 2 ^ 31"
    using assms(3) by simp
  from assms(3) obtain y ys where ys: "?ys = y # ys"
    by (cases ?ys) simp_all
  note init = ReservoirSampling_initial [OF assms(2)]
  have "unat (numProcessed s0) + length ?xs \<le> 2 ^ 31"
    unfolding lx init(2) by simp
  from process_all_invariants [OF assms(1) init(1) this]
  obtain s' where
    r: "process_all draw s0 ?xs = Inr s'" and
    n: "unat (numProcessed s') = unat (numProcessed s0) + length ?xs"
    by blast
  have "unat (numProcessed s') = 2 ^ 31"
    unfolding n lx init(2) by simp
  then have "process draw s' y = Inl BadDistributionBounds"
    by (rule process_at_limit)
  then have "process_all draw s' ?ys = Inl BadDistributionBounds"
    unfolding ys by simp
  with r have "process_all draw s0 (?xs @ ?ys) = Inl BadDistributionBounds"
    unfolding process_all_append by simp
  then show ?thesis
    by (simp only: append_take_drop_id)
qed

theorem process_all_exceeds_int_witness:
  "in_bounds draw_lower \<and>
   ReservoirSampling sample_allocator 1 0 =
     Inr \<lparr>rand_gen = 0 :: nat, num_to_sample = 1, num_processed = 0, samples = [] :: int list\<rparr> \<and>
   2 ^ 31 < length (replicate (2 ^ 31 + 1) (7 :: int)) \<and>
   process_all draw_lower
     \<lparr>rand_gen = 0 :: nat, num_to_sample = 1, num_processed = 0, samples = [] :: int list\<rparr>
     (replicate (2 ^ 31 + 1) 7) = Inl BadDistributionBounds"
proof -
  let ?s0 = "\<lparr>rand_gen = 0 :: nat, num_to_sample = 1, num_processed = 0,
               samples = [] :: int list\<rparr>"
  have c: "ReservoirSampling sample_allocator 1 0 = Inr ?s0"
    by (simp add: ReservoirSampling_def vector_storage_def sample_allocator_def)
  have l: "2 ^ 31 < length (replicate (2 ^ 31 + 1) (7 :: int))"
    by simp
  from in_bounds_draw_lower c l process_all_exceeds_int [OF in_bounds_draw_lower c l]
  show ?thesis
    by (intro conjI)
qed


section \<open>Properties of \<open>make\<close>\<close>

subsection \<open>Bounds on the exponential and the logarithm\<close>









lemma rel_zero:
  fixes a eps :: real
  assumes "\<bar>a - b\<bar> \<le> eps * \<bar>b\<bar>" and "b = 0"
  shows "a = 0"
  using assms by simp





subsection \<open>The number of hashes\<close>
















subsection \<open>The number of buckets\<close>















subsection \<open>Exact and rounded arithmetic\<close>

















subsection \<open>The sizes that \<open>make\<close> chooses\<close>





section \<open>Construction with invalid parameters\<close>




end
